theory Spec2Isabelle
  imports Main
begin

section \<open>Python strings\<close>

text \<open>
  A Python \<open>str\<close> is a sequence of Unicode code points, and \<open>len\<close> counts code points.
  A code point is modelled as a natural number and a string as a list of them; \<open>py\<close>
  turns an ASCII literal into such a list.
\<close>

type_synonym codepoint = nat
type_synonym pystr = "codepoint list"

definition py :: "string \<Rightarrow> pystr" where
  "py s = map of_char s"

text \<open>
  \<open>str.isspace\<close>, \<open>str.strip\<close> without argument and the regular expression class
  \<open>\s\<close> on \<open>str\<close> patterns all use the same set of white-space code points.
\<close>

definition isspace :: "codepoint \<Rightarrow> bool" where
  "isspace c \<longleftrightarrow>
     (0x09 \<le> c \<and> c \<le> 0x0D) \<or> (0x1C \<le> c \<and> c \<le> 0x20) \<or> c = 0x85 \<or> c = 0xA0 \<or>
     c = 0x1680 \<or> (0x2000 \<le> c \<and> c \<le> 0x200A) \<or> c = 0x2028 \<or> c = 0x2029 \<or>
     c = 0x202F \<or> c = 0x205F \<or> c = 0x3000"

text \<open>The line boundaries of \<open>str.splitlines\<close>.\<close>

definition islinebreak :: "codepoint \<Rightarrow> bool" where
  "islinebreak c \<longleftrightarrow>
     (0x0A \<le> c \<and> c \<le> 0x0D) \<or> (0x1C \<le> c \<and> c \<le> 0x1E) \<or> c = 0x85 \<or>
     c = 0x2028 \<or> c = 0x2029"

text \<open>
  The class \<open>\d\<close> on \<open>str\<close> patterns is the Unicode category Nd. Its members come in
  runs of ten consecutive code points (the digits zero to nine of one script); the table
  lists the first code point of every run, for Unicode 14.0.0 (the five runs of
  mathematical digits from U+1D7CE are consecutive).
\<close>

definition decimal_zeros :: "codepoint list" where
  "decimal_zeros =
     [48, 1632, 1776, 1984, 2406, 2534, 2662, 2790, 2918, 3046, 3174, 3302, 3430, 3558,
      3664, 3792, 3872, 4160, 4240, 6112, 6160, 6470, 6608, 6784, 6800, 6992, 7088, 7232,
      7248, 42528, 43216, 43264, 43472, 43504, 43600, 44016, 65296, 66720, 68912, 69734,
      69872, 69942, 70096, 70384, 70736, 70864, 71248, 71360, 71472, 71904, 72016, 72784,
      73040, 73120, 92768, 92864, 93008, 120782, 120792, 120802, 120812, 120822, 123200,
      123632, 125264, 130032]"

definition isdecimal :: "codepoint \<Rightarrow> bool" where
  "isdecimal c \<longleftrightarrow> list_ex (\<lambda>z. z \<le> c \<and> c < z + 10) decimal_zeros"

text \<open>\<open>s.lstrip()\<close>, \<open>s.rstrip()\<close>, \<open>s.strip()\<close>: white space removed at the ends.\<close>

definition lstrip :: "pystr \<Rightarrow> pystr" where
  "lstrip s = dropWhile isspace s"

definition rstrip :: "pystr \<Rightarrow> pystr" where
  "rstrip s = rev (dropWhile isspace (rev s))"

definition strip :: "pystr \<Rightarrow> pystr" where
  "strip s = rstrip (lstrip s)"

text \<open>\<open>s.lstrip(chars)\<close> and \<open>s.rstrip(chars)\<close>: the code points of \<open>chars\<close> removed.\<close>

definition lstrip_chars :: "pystr \<Rightarrow> pystr \<Rightarrow> pystr" where
  "lstrip_chars chars s = dropWhile (\<lambda>c. c \<in> set chars) s"

definition rstrip_chars :: "pystr \<Rightarrow> pystr \<Rightarrow> pystr" where
  "rstrip_chars chars s = rev (dropWhile (\<lambda>c. c \<in> set chars) (rev s))"

text \<open>
  \<open>s.expandtabs(tabsize)\<close>: a tab is replaced by the spaces that reach the next multiple
  of \<open>tabsize\<close> columns; the column restarts at 0 after a line feed or a carriage return.
\<close>

fun expandtabs_from :: "nat \<Rightarrow> nat \<Rightarrow> pystr \<Rightarrow> pystr" where
  "expandtabs_from tabsize col [] = []"
| "expandtabs_from tabsize col (c # cs) =
     (if c = 0x09 then
        (if 0 < tabsize then
           replicate (tabsize - col mod tabsize) 0x20 @
           expandtabs_from tabsize (col + (tabsize - col mod tabsize)) cs
         else expandtabs_from tabsize col cs)
      else c # expandtabs_from tabsize (if c = 0x0A \<or> c = 0x0D then 0 else col + 1) cs)"

definition expandtabs :: "nat \<Rightarrow> pystr \<Rightarrow> pystr" where
  "expandtabs tabsize s = expandtabs_from tabsize 0 s"

text \<open>
  \<open>s.splitlines()\<close>: while text remains, the code points up to the next line boundary are
  one line, and the boundary (\<open>\r\n\<close> counting as one) is dropped.
\<close>

definition after_break :: "pystr \<Rightarrow> pystr" where
  "after_break r =
     (case r of [] \<Rightarrow> []
      | c # r' \<Rightarrow> (case r' of [] \<Rightarrow> r'
                   | d # r'' \<Rightarrow> if c = 0x0D \<and> d = 0x0A then r'' else r'))"

function splitlines :: "pystr \<Rightarrow> pystr list" where
  "splitlines s =
     (if s = [] then []
      else takeWhile (\<lambda>c. \<not> islinebreak c) s #
           splitlines (after_break (dropWhile (\<lambda>c. \<not> islinebreak c) s)))"
  by pat_completeness auto
termination
proof (relation "measure length")
  fix s :: pystr
  assume ne: "s \<noteq> []"
  define r where "r = dropWhile (\<lambda>c. \<not> islinebreak c) s"
  have le: "length r \<le> length s"
    unfolding r_def by (rule length_dropWhile_le)
  have "length (after_break r) < length s"
  proof (cases r)
    case Nil
    then show ?thesis using ne by (simp add: after_break_def)
  next
    case (Cons c r')
    then have "length (after_break r) < length r"
      by (simp add: after_break_def split: list.splits)
    with le show ?thesis by simp
  qed
  then show "(after_break (dropWhile (\<lambda>c. \<not> islinebreak c) s), s) \<in> measure length"
    by (simp add: r_def)
qed simp

declare splitlines.simps [simp del]

section \<open>The two patterns\<close>

text \<open>
  \<open>_CHECKBOX_PATTERN = (.*?)\[\s*\](.*)\<close>, used with \<open>search\<close>. The dot matches every
  code point but the line feed.

  \<open>match_brackets\<close> is \<open>\[\s*\]\<close> at the head of the text; it yields what follows the
  closing bracket. The greedy \<open>\s*\<close> never has to give a code point back, since the
  closing bracket is not white space.
\<close>

definition match_brackets :: "pystr \<Rightarrow> pystr option" where
  "match_brackets s =
     (case s of [] \<Rightarrow> None
      | c # cs \<Rightarrow>
          if c = 0x5B then
            (case dropWhile isspace cs of [] \<Rightarrow> None
             | d # ds \<Rightarrow> if d = 0x5D then Some ds else None)
          else None)"

text \<open>
  The pattern from a fixed start: the lazy group 1 (kept reversed in \<open>pre\<close>) grows one
  code point at a time until the brackets match; group 2 takes the rest of the line.
\<close>

fun checkbox_match_at :: "pystr \<Rightarrow> pystr \<Rightarrow> (pystr \<times> pystr) option" where
  "checkbox_match_at pre [] = None"
| "checkbox_match_at pre (c # cs) =
     (case match_brackets (c # cs) of
        Some r \<Rightarrow> Some (rev pre, takeWhile (\<lambda>d. d \<noteq> 0x0A) r)
      | None \<Rightarrow> if c = 0x0A then None else checkbox_match_at (c # pre) cs)"

text \<open>\<open>search\<close>: the leftmost start at which the pattern matches.\<close>

fun checkbox_search :: "pystr \<Rightarrow> (pystr \<times> pystr) option" where
  "checkbox_search [] = None"
| "checkbox_search (c # cs) =
     (case checkbox_match_at [] (c # cs) of
        Some m \<Rightarrow> Some m
      | None \<Rightarrow> checkbox_search cs)"

text \<open>
  The marker class of the source file, as its text is encoded: the hyphen, the asterisk
  and the code points U+00E2, U+20AC, U+00A2, U+2014, U+00A6, U+2013, U+00AA.
\<close>

definition is_marker_glyph :: "codepoint \<Rightarrow> bool" where
  "is_marker_glyph c \<longleftrightarrow>
     c = 0x2D \<or> c = 0x2A \<or> c = 0xE2 \<or> c = 0x20AC \<or> c = 0xA2 \<or> c = 0x2014 \<or>
     c = 0xA6 \<or> c = 0x2013 \<or> c = 0xAA"

text \<open>
  \<open>(?:[-*...]|\d+\.)\<close> at the head of the text: one glyph of the class, or decimal
  digits and a full stop. The result is the text after the marker.
\<close>

definition match_marker :: "pystr \<Rightarrow> pystr option" where
  "match_marker s =
     (case s of [] \<Rightarrow> None
      | c # cs \<Rightarrow>
          if is_marker_glyph c then Some cs
          else if isdecimal c then
            (case dropWhile isdecimal cs of [] \<Rightarrow> None
             | d # ds \<Rightarrow> if d = 0x2E then Some ds else None)
          else None)"

text \<open>
  \<open>_BULLET_PATTERN = ^\s*(?:[-*...]|\d+\.)\s+(.*)\<close>, used with \<open>match\<close>; the result is
  group 1.
\<close>

definition bullet_match :: "pystr \<Rightarrow> pystr option" where
  "bullet_match s =
     (case match_marker (dropWhile isspace s) of
        None \<Rightarrow> None
      | Some r \<Rightarrow>
          (case r of [] \<Rightarrow> None
           | c # cs \<Rightarrow>
               if isspace c then Some (takeWhile (\<lambda>d. d \<noteq> 0x0A) (dropWhile isspace r))
               else None))"

text \<open>
  \<open>re.sub(r"^(?:[-*...]|\d+\.)\s*", "", pre)\<close>: the pattern can match at the start of the
  text only, so at most one marker, with the white space after it, is removed.
\<close>

definition sub_marker :: "pystr \<Rightarrow> pystr" where
  "sub_marker pre =
     (case match_marker pre of None \<Rightarrow> pre | Some r \<Rightarrow> dropWhile isspace r)"

section \<open>The report builder\<close>

datatype error = IndexError

type_synonym item = "nat \<times> pystr"

record state =
  "output" :: "pystr list"
  stack :: "item list"
  collecting :: bool
  collect_indent :: "nat option"
  root_stack_len :: nat

definition init_state :: state where
  "init_state =
     \<lparr>output = [], stack = [], collecting = False, collect_indent = None,
      root_stack_len = 0\<rparr>"

text \<open>\<open>stack[-1]\<close> and \<open>stack.pop()\<close> raise IndexError on the empty list.\<close>

definition stack_top :: "item list \<Rightarrow> error + item" where
  "stack_top s = (if s = [] then Inl IndexError else Inr (last s))"

definition stack_pop :: "item list \<Rightarrow> error + item list" where
  "stack_pop s = (if s = [] then Inl IndexError else Inr (butlast s))"

text \<open>The guard of the inner \<open>if\<close> and its body.\<close>

definition leaves_collection :: "nat \<Rightarrow> state \<Rightarrow> bool" where
  "leaves_collection indent st \<longleftrightarrow>
     collecting st \<and> (case collect_indent st of None \<Rightarrow> False | Some ci \<Rightarrow> indent \<le> ci)"

definition stop_collecting :: "nat \<Rightarrow> state \<Rightarrow> state" where
  "stop_collecting indent st =
     (if leaves_collection indent st then st\<lparr>collecting := False, collect_indent := None\<rparr>
      else st)"

text \<open>The \<open>while\<close> loop that adjusts the stack to the current indentation.\<close>

function adjust_stack :: "nat \<Rightarrow> state \<Rightarrow> error + state" where
  "adjust_stack indent st =
     (if stack st = [] then Inr st
      else
        (case stack_top (stack st) of
           Inl e \<Rightarrow> Inl e
         | Inr top_item \<Rightarrow>
             if indent \<le> fst top_item then
               (case stack_pop (stack (stop_collecting indent st)) of
                  Inl e \<Rightarrow> Inl e
                | Inr s \<Rightarrow> adjust_stack indent ((stop_collecting indent st)\<lparr>stack := s\<rparr>))
             else Inr st))"
  by pat_completeness auto
termination
  by (relation "measure (\<lambda>(indent, st). length (stack st))")
     (auto simp: stack_pop_def stop_collecting_def split: if_splits)

declare adjust_stack.simps [simp del]

text \<open>One line of the report: two spaces per level, a dash, the text.\<close>

definition report_line :: "nat \<Rightarrow> pystr \<Rightarrow> pystr" where
  "report_line level txt = concat (replicate level (py ''  '')) @ py ''- '' @ txt"

text \<open>The \<open>for level, (_, txt) in enumerate(stack)\<close> loop, from \<open>level\<close> on.\<close>

fun emit_path :: "nat \<Rightarrow> item list \<Rightarrow> pystr list \<Rightarrow> pystr list" where
  "emit_path level [] out = out"
| "emit_path level (e # rest) out =
     emit_path (Suc level) rest
       ((if level = 0 then out @ [[]] else out) @ [report_line level (snd e)])"

text \<open>The line after tab expansion, its indentation and its content.\<close>

definition norm_line :: "pystr \<Rightarrow> pystr" where
  "norm_line raw_line = rstrip_chars [0x0D, 0x0A] (expandtabs 4 raw_line)"

definition indent_of :: "pystr \<Rightarrow> nat" where
  "indent_of line = length line - length (lstrip_chars [0x20] line)"

text \<open>The item text of a checkbox match, from its two groups.\<close>

definition checkbox_text :: "pystr \<Rightarrow> pystr \<Rightarrow> pystr" where
  "checkbox_text g1 g2 =
     (let pre = strip g1; post = strip g2; pre_clean = sub_marker pre
      in if pre_clean \<noteq> [] \<and> post \<noteq> [] then pre_clean @ py '' '' @ post
         else if pre_clean \<noteq> [] then pre_clean else post)"

text \<open>
  The classification of the content: the item text and whether the checkbox pattern
  matched, or \<open>None\<close> for a line that is no list item.
\<close>

definition classify :: "pystr \<Rightarrow> (bool \<times> pystr) option" where
  "classify content =
     (case checkbox_search content of
        Some (g1, g2) \<Rightarrow> Some (True, checkbox_text g1 g2)
      | None \<Rightarrow>
          (case bullet_match content of
             Some g \<Rightarrow> Some (False, strip g)
           | None \<Rightarrow> None))"

text \<open>What follows the \<open>while\<close> loop: the push and the emission.\<close>

definition push_emit :: "nat \<Rightarrow> bool \<Rightarrow> pystr \<Rightarrow> state \<Rightarrow> state" where
  "push_emit indent is_checkbox item_text st =
     (let st1 = st\<lparr>stack := stack st @ [(indent, item_text)]\<rparr>
      in if is_checkbox then
           st1\<lparr>output := emit_path 0 (stack st1) (output st1),
               collecting := True, collect_indent := Some indent,
               root_stack_len := length (stack st1)\<rparr>
         else if collecting st1 \<and>
                 (case collect_indent st1 of None \<Rightarrow> False | Some ci \<Rightarrow> ci < indent)
         then st1\<lparr>output := output st1 @ [report_line (length (stack st1) - 1) item_text]\<rparr>
         else st1)"

text \<open>The body of the \<open>for\<close> loop.\<close>

definition process_line :: "state \<Rightarrow> pystr \<Rightarrow> error + state" where
  "process_line st raw_line =
     (if strip raw_line = [] then Inr st
      else
        (let line = norm_line raw_line;
             indent = indent_of line;
             content = lstrip line
         in case classify content of
              None \<Rightarrow> Inr st
            | Some (is_checkbox, item_text) \<Rightarrow>
                (case adjust_stack indent st of
                   Inl e \<Rightarrow> Inl e
                 | Inr st1 \<Rightarrow> Inr (push_emit indent is_checkbox item_text st1))))"

fun run_lines :: "state \<Rightarrow> pystr list \<Rightarrow> error + state" where
  "run_lines st [] = Inr st"
| "run_lines st (l # ls) =
     (case process_line st l of Inl e \<Rightarrow> Inl e | Inr st1 \<Rightarrow> run_lines st1 ls)"

definition build_report :: "pystr \<Rightarrow> error + pystr list" where
  "build_report text =
     (case run_lines init_state (splitlines text) of
        Inl e \<Rightarrow> Inl e
      | Inr st \<Rightarrow> Inr (output st))"

section \<open>Notions used to state the properties\<close>

text \<open>
  The stack after its top entries have been removed for as long as the indentation of the
  current line is less than or equal to the indentation of the top entry.
\<close>

definition popped_stack :: "nat \<Rightarrow> item list \<Rightarrow> item list" where
  "popped_stack indent s = rev (dropWhile (\<lambda>e. indent \<le> fst e) (rev s))"

text \<open>The \<open>while\<close> loop runs at least once.\<close>

definition enters_loop :: "nat \<Rightarrow> state \<Rightarrow> bool" where
  "enters_loop indent st \<longleftrightarrow> stack st \<noteq> [] \<and> indent \<le> fst (last (stack st))"

text \<open>
  A raw line is a list item of the given indentation, kind (checkbox or plain bullet) and
  text: it is not blank and its content is classified so.
\<close>

definition is_item_line :: "pystr \<Rightarrow> nat \<Rightarrow> bool \<Rightarrow> pystr \<Rightarrow> bool" where
  "is_item_line raw_line indent is_checkbox item_text \<longleftrightarrow>
     strip raw_line \<noteq> [] \<and>
     classify (lstrip (norm_line raw_line)) = Some (is_checkbox, item_text) \<and>
     indent_of (norm_line raw_line) = indent"

text \<open>A raw line that the loop skips: blank, or no list item.\<close>

definition is_skipped_line :: "pystr \<Rightarrow> bool" where
  "is_skipped_line raw_line \<longleftrightarrow>
     strip raw_line = [] \<or> classify (lstrip (norm_line raw_line)) = None"

text \<open>
  The report lines of a chain of items: the entry at index \<open>i\<close> gives two spaces repeated
  \<open>i\<close> times, a dash with a space, and its text.
\<close>

definition chain_line :: "nat \<Rightarrow> pystr \<Rightarrow> pystr" where
  "chain_line i txt = concat (replicate i [0x20, 0x20]) @ [0x2D, 0x20] @ txt"

definition path_lines :: "item list \<Rightarrow> pystr list" where
  "path_lines s = map (\<lambda>i. chain_line i (snd (s ! i))) [0..<length s]"

text \<open>The ancestor stack is strictly increasing in indentation from bottom to top.\<close>

definition strict_stack :: "state \<Rightarrow> bool" where
  "strict_stack st \<longleftrightarrow> sorted_wrt (<) (map fst (stack st))"

text \<open>
  The state after the \<open>while\<close> loop, in closed form: the mode is switched off if the
  loop runs at all and its inner guard holds, and the stack is the popped stack.
\<close>

definition unwound :: "nat \<Rightarrow> state \<Rightarrow> state" where
  "unwound indent st =
     (if enters_loop indent st then stop_collecting indent st else st)
       \<lparr>stack := popped_stack indent (stack st)\<rparr>"

text \<open>
  Popping while the stack is not empty and the indentation of the current line is less
  than or equal to that of the top entry.
\<close>

function pop_while :: "nat \<Rightarrow> item list \<Rightarrow> item list" where
  "pop_while indent s =
     (if s \<noteq> [] \<and> indent \<le> fst (last s) then pop_while indent (butlast s) else s)"
  by pat_completeness auto
termination
  by (relation "measure (\<lambda>(indent, s). length s)") auto

declare pop_while.simps [simp del]

text \<open>
  A plain bullet is collected as a child: the mode is active and the indentation of the
  line is strictly greater than the recorded indentation of the checkbox.
\<close>

definition collects_child :: "nat \<Rightarrow> state \<Rightarrow> bool" where
  "collects_child indent st \<longleftrightarrow>
     collecting st \<and> (case collect_indent st of None \<Rightarrow> False | Some ci \<Rightarrow> ci < indent)"

text \<open>A raw line that is skipped or lies deeper than the indentation \<open>n\<close>.\<close>

definition deeper_or_skipped :: "nat \<Rightarrow> pystr \<Rightarrow> bool" where
  "deeper_or_skipped n raw_line \<longleftrightarrow>
     is_skipped_line raw_line \<or> n < indent_of (norm_line raw_line)"

text \<open>The indentation of a raw line that is a checkbox item, and the last one in a list of lines.\<close>

definition checkbox_indent :: "pystr \<Rightarrow> nat option" where
  "checkbox_indent raw_line =
     (if strip raw_line = [] then None
      else (case classify (lstrip (norm_line raw_line)) of
              None \<Rightarrow> None
            | Some (is_checkbox, item_text) \<Rightarrow>
                if is_checkbox then Some (indent_of (norm_line raw_line)) else None))"

fun last_checkbox_indent :: "pystr list \<Rightarrow> nat option" where
  "last_checkbox_indent [] = None"
| "last_checkbox_indent (l # ls) =
     (case last_checkbox_indent ls of
        Some n \<Rightarrow> Some n
      | None \<Rightarrow> checkbox_indent l)"

text \<open>The content of a raw line matches neither pattern.\<close>

definition matches_no_pattern :: "pystr \<Rightarrow> bool" where
  "matches_no_pattern raw_line \<longleftrightarrow>
     checkbox_search (lstrip (norm_line raw_line)) = None \<and>
     bullet_match (lstrip (norm_line raw_line)) = None"

text \<open>Every tab replaced by four spaces, whatever its column.\<close>

definition tabs_to_four_spaces :: "pystr \<Rightarrow> pystr" where
  "tabs_to_four_spaces s = concat (map (\<lambda>c. if c = 0x09 then replicate 4 0x20 else [c]) s)"

text \<open>The number of leading spaces of a text.\<close>

definition leading_spaces :: "pystr \<Rightarrow> nat" where
  "leading_spaces s = length (takeWhile (\<lambda>c. c = 0x20) s)"

text \<open>
  The column reached by the leading spaces and tabs of a text, from column \<open>col\<close>: a
  space advances by one, a tab to the next multiple of four.
\<close>

fun leading_width :: "nat \<Rightarrow> pystr \<Rightarrow> nat" where
  "leading_width col [] = col"
| "leading_width col (c # cs) =
     (if c = 0x20 then leading_width (col + 1) cs
      else if c = 0x09 then leading_width (col + (4 - col mod 4)) cs
      else col)"

text \<open>
  The empty-bracket token at indices \<open>i\<close> to \<open>j\<close> of a text: an opening bracket at
  \<open>i\<close>, a closing bracket at \<open>j\<close>, and white space only in between.
\<close>

definition token_at :: "pystr \<Rightarrow> nat \<Rightarrow> nat \<Rightarrow> bool" where
  "token_at s i j \<longleftrightarrow>
     i < j \<and> j < length s \<and> s ! i = 0x5B \<and> s ! j = 0x5D \<and>
     list_all isspace (take (j - Suc i) (drop (Suc i) s))"

text \<open>A token starts at index \<open>i\<close>; no token starts before index \<open>i\<close>.\<close>

definition token_starts_at :: "pystr \<Rightarrow> nat \<Rightarrow> bool" where
  "token_starts_at s i \<longleftrightarrow> list_ex (token_at s i) [0..<length s]"

definition no_token_before :: "pystr \<Rightarrow> nat \<Rightarrow> bool" where
  "no_token_before s i \<longleftrightarrow> list_all (\<lambda>k. \<not> token_starts_at s k) [0..<i]"

text \<open>
  Two texts joined by one space if both are not empty, otherwise the one that is not
  empty, and the empty text if both are.
\<close>

definition join_text :: "pystr \<Rightarrow> pystr \<Rightarrow> pystr" where
  "join_text a b =
     (if a \<noteq> [] \<and> b \<noteq> [] then a @ [0x20] @ b
      else if a \<noteq> [] then a
      else if b \<noteq> [] then b
      else [])"

section \<open>The loop that adjusts the stack\<close>

lemma popped_stack_snoc:
  "popped_stack indent (b @ [e]) =
     (if indent \<le> fst e then popped_stack indent b else b @ [e])"
  by (simp add: popped_stack_def)

lemma popped_stack_pop:
  assumes "s \<noteq> []" and "indent \<le> fst (last s)"
  shows "popped_stack indent s = popped_stack indent (butlast s)"
proof -
  from assms(1) obtain b e where s: "s = b @ [e]"
    by (cases s rule: rev_cases) auto
  with assms(2) show ?thesis by (simp add: popped_stack_snoc)
qed

lemma popped_stack_keep:
  assumes "s = [] \<or> \<not> indent \<le> fst (last s)"
  shows "popped_stack indent s = s"
proof (cases s rule: rev_cases)
  case Nil
  then show ?thesis by (simp add: popped_stack_def)
next
  case (snoc b e)
  with assms show ?thesis by (simp add: popped_stack_snoc)
qed

lemma stop_collecting_idem:
  "stop_collecting indent ((stop_collecting indent st)\<lparr>stack := s\<rparr>) =
   (stop_collecting indent st)\<lparr>stack := s\<rparr>"
  by (simp add: stop_collecting_def leaves_collection_def)

lemma adjust_stack_eq:
  "adjust_stack indent st =
     Inr ((if enters_loop indent st then stop_collecting indent st else st)
          \<lparr>stack := popped_stack indent (stack st)\<rparr>)"
proof (induction indent st rule: adjust_stack.induct)
  case (1 indent st)
  show ?case
  proof (cases "enters_loop indent st")
    case True
    let ?st1 = "(stop_collecting indent st)\<lparr>stack := butlast (stack st)\<rparr>"
    from True have ne: "stack st \<noteq> []" and le: "indent \<le> fst (last (stack st))"
      by (simp_all add: enters_loop_def)
    have st_stack: "stack (stop_collecting indent st) = stack st"
      by (simp add: stop_collecting_def)
    have IH: "adjust_stack indent ?st1 =
        Inr ((if enters_loop indent ?st1 then stop_collecting indent ?st1 else ?st1)
          \<lparr>stack := popped_stack indent (stack ?st1)\<rparr>)"
      using "1.IH" [of "last (stack st)" "butlast (stack st)"] ne le
      by (simp add: stack_top_def stack_pop_def st_stack)
    have step: "adjust_stack indent st = adjust_stack indent ?st1"
      using ne le
      by (subst adjust_stack.simps) (simp add: stack_top_def stack_pop_def st_stack)
    have "(if enters_loop indent ?st1 then stop_collecting indent ?st1 else ?st1) = ?st1"
      by (simp add: stop_collecting_idem)
    with IH step have "adjust_stack indent st =
        Inr (?st1\<lparr>stack := popped_stack indent (butlast (stack st))\<rparr>)"
      by simp
    then show ?thesis
      using True popped_stack_pop [OF ne le] by simp
  next
    case False
    then have keep: "popped_stack indent (stack st) = stack st"
      by (intro popped_stack_keep) (auto simp: enters_loop_def)
    have "adjust_stack indent st = Inr st"
      using False
      by (subst adjust_stack.simps) (auto simp: enters_loop_def stack_top_def)
    then show ?thesis using False keep by simp
  qed
qed

section \<open>One line of input\<close>

lemma process_line_item:
  assumes "is_item_line raw indent cb txt"
  shows "process_line st raw = Inr (push_emit indent cb txt (unwound indent st))"
  using assms
  by (simp add: process_line_def is_item_line_def adjust_stack_eq unwound_def Let_def)

lemma process_line_skipped:
  assumes "is_skipped_line raw"
  shows "process_line st raw = Inr st"
  using assms by (auto simp: process_line_def is_skipped_line_def Let_def)

lemma line_cases:
  "is_skipped_line raw \<or>
   (\<exists>cb txt. is_item_line raw (indent_of (norm_line raw)) cb txt)"
  by (cases "classify (lstrip (norm_line raw))")
     (auto simp: is_skipped_line_def is_item_line_def)

lemma report_line_chain: "report_line i txt = chain_line i txt"
  by (simp add: report_line_def chain_line_def py_def)

lemma emit_path_pos:
  "0 < level \<Longrightarrow>
   emit_path level s out =
     out @ map (\<lambda>i. chain_line (level + i) (snd (s ! i))) [0..<length s]"
proof (induction s arbitrary: level out)
  case Nil
  then show ?case by simp
next
  case (Cons e s)
  have "map (\<lambda>i. chain_line (level + i) (snd ((e # s) ! i))) [0..<length (e # s)] =
        chain_line level (snd e) #
        map (\<lambda>i. chain_line (Suc level + i) (snd (s ! i))) [0..<length s]"
    by (simp add: map_upt_Suc del: upt_Suc)
  with Cons show ?case by (simp add: report_line_chain)
qed

lemma emit_path_0:
  "s \<noteq> [] \<Longrightarrow> emit_path 0 s out = out @ [] # path_lines s"
proof (cases s)
  case Nil
  then show "s \<noteq> [] \<Longrightarrow> ?thesis" by simp
next
  case (Cons e r)
  have "path_lines (e # r) =
        chain_line 0 (snd e) # map (\<lambda>i. chain_line (Suc 0 + i) (snd (r ! i))) [0..<length r]"
    by (simp add: path_lines_def map_upt_Suc del: upt_Suc)
  then show ?thesis using Cons
    by (simp add: emit_path_pos report_line_chain)
qed

lemma path_lines_snoc:
  "path_lines (a @ [e]) = path_lines a @ [chain_line (length a) (snd e)]"
  by (simp add: path_lines_def nth_append)

lemma pop_while_eq: "pop_while indent s = popped_stack indent s"
proof (induction indent s rule: pop_while.induct)
  case (1 indent s)
  show ?case
  proof (cases "s \<noteq> [] \<and> indent \<le> fst (last s)")
    case True
    then have "pop_while indent s = pop_while indent (butlast s)"
      by (subst pop_while.simps) simp
    with True "1.IH" show ?thesis by (simp add: popped_stack_pop)
  next
    case False
    then have "pop_while indent s = s"
      by (subst pop_while.simps) auto
    with False show ?thesis by (simp add: popped_stack_keep)
  qed
qed

lemma stack_unwound [simp]: "stack (unwound indent st) = popped_stack indent (stack st)"
  by (simp add: unwound_def)

lemma output_unwound [simp]: "output (unwound indent st) = output st"
  by (simp add: unwound_def stop_collecting_def)

lemma collecting_unwound:
  "collecting (unwound indent st) \<longleftrightarrow>
     collecting st \<and> \<not> (enters_loop indent st \<and> leaves_collection indent st)"
  by (auto simp: unwound_def stop_collecting_def)

lemma collects_child_unwound:
  "collects_child indent (unwound indent st) = collects_child indent st"
  by (auto simp: collects_child_def unwound_def stop_collecting_def leaves_collection_def
      split: option.splits)

lemma stack_push_emit [simp]:
  "stack (push_emit indent cb txt st) = stack st @ [(indent, txt)]"
  by (simp add: push_emit_def Let_def)

lemma output_push_emit_checkbox:
  "output (push_emit indent True txt st) =
     output st @ [] # path_lines (stack st @ [(indent, txt)])"
  by (simp add: push_emit_def Let_def emit_path_0)

lemma output_push_emit_bullet:
  "output (push_emit indent False txt st) =
     (if collects_child indent st then output st @ [chain_line (length (stack st)) txt]
      else output st)"
  by (simp add: push_emit_def Let_def collects_child_def report_line_chain)

lemma popped_stack_idem: "popped_stack n (popped_stack n s) = popped_stack n s"
  by (induction s rule: rev_induct) (simp_all add: popped_stack_snoc popped_stack_def)

lemma popped_stack_append_all:
  "\<forall>e\<in>set extra. n \<le> fst e \<Longrightarrow> popped_stack n (b @ extra) = popped_stack n b"
proof (induction extra rule: rev_induct)
  case Nil
  then show ?case by simp
next
  case (snoc e extra)
  then show ?case
    using popped_stack_snoc [of n "b @ extra" e] by simp
qed

lemma popped_stack_append_keep:
  assumes "b \<noteq> []" and "fst (last b) < m"
  shows "\<exists>extra'. popped_stack m (b @ extra) = b @ extra' \<and> set extra' \<subseteq> set extra"
proof (induction extra rule: rev_induct)
  case Nil
  from assms have "popped_stack m b = b"
    by (intro popped_stack_keep) simp
  then show ?case by simp
next
  case (snoc e extra)
  show ?case
  proof (cases "m \<le> fst e")
    case True
    then have "popped_stack m (b @ extra @ [e]) = popped_stack m (b @ extra)"
      using popped_stack_snoc [of m "b @ extra" e] by simp
    with snoc show ?thesis by auto
  next
    case False
    then have "popped_stack m (b @ extra @ [e]) = b @ extra @ [e]"
      using popped_stack_snoc [of m "b @ extra" e] by simp
    then show ?thesis by blast
  qed
qed

lemma run_lines_deeper:
  assumes "list_all (deeper_or_skipped n) mid"
    and "stack st = b @ extra" and "b \<noteq> []" and "fst (last b) \<le> n"
    and "\<forall>e\<in>set extra. n < fst e"
  shows "\<exists>stm extra'. run_lines st mid = Inr stm \<and> stack stm = b @ extra' \<and>
           (\<forall>e\<in>set extra'. n < fst e)"
  using assms
proof (induction mid arbitrary: st extra)
  case Nil
  then show ?case by auto
next
  case (Cons l mid)
  from Cons.prems(1) have l: "deeper_or_skipped n l" and mid: "list_all (deeper_or_skipped n) mid"
    by simp_all
  have "\<exists>st1 extra1. process_line st l = Inr st1 \<and> stack st1 = b @ extra1 \<and>
          (\<forall>e\<in>set extra1. n < fst e)"
  proof (cases "is_skipped_line l")
    case True
    then show ?thesis using Cons.prems by (auto simp: process_line_skipped)
  next
    case False
    with l have deep: "n < indent_of (norm_line l)"
      by (simp add: deeper_or_skipped_def)
    from False line_cases [of l] obtain cb t
      where item: "is_item_line l (indent_of (norm_line l)) cb t" by blast
    let ?m = "indent_of (norm_line l)"
    from Cons.prems(3,4) deep obtain extra'
      where e': "popped_stack ?m (b @ extra) = b @ extra'" "set extra' \<subseteq> set extra"
      using popped_stack_append_keep [of b ?m extra] by auto
    have "stack (push_emit ?m cb t (unwound ?m st)) = b @ (extra' @ [(?m, t)])"
      using e'(1) Cons.prems(2) by simp
    moreover have "\<forall>e\<in>set (extra' @ [(?m, t)]). n < fst e"
      using e'(2) Cons.prems(5) deep by auto
    ultimately show ?thesis
      using process_line_item [OF item, of st] by blast
  qed
  then obtain st1 extra1 where st1: "process_line st l = Inr st1" "stack st1 = b @ extra1"
      "\<forall>e\<in>set extra1. n < fst e" by blast
  from Cons.IH [OF mid st1(2) Cons.prems(3,4) st1(3)] st1(1)
  show ?case by simp
qed

text \<open>The definitions unfolded to evaluate the model on a given line.\<close>

lemmas eval_defs =
  py_def is_item_line_def is_skipped_line_def deeper_or_skipped_def strip_def lstrip_def
  rstrip_def norm_line_def expandtabs_def rstrip_chars_def lstrip_chars_def indent_of_def
  classify_def isspace_def match_brackets_def checkbox_text_def sub_marker_def
  match_marker_def is_marker_glyph_def bullet_match_def isdecimal_def decimal_zeros_def

section \<open>Emission\<close>

text \<open>
  Claim C1. A line classified as a checkbox item appends a blank line and then one line
  per entry of the stack, from index 0 to the checkbox item just pushed, the entry at
  index \<open>i\<close> giving two spaces repeated \<open>i\<close> times, a dash with a space, and its text.
  A checkbox item without ancestors appends the blank line and the dash line of its text
  only. A later checkbox item at the same indentation, with only skipped or deeper lines
  in between, appends its own blank line and the same ancestor lines again.
\<close>

theorem checkbox_emits_ancestor_path:
  assumes "is_item_line raw indent True txt"
  shows "\<exists>st1. process_line st raw = Inr st1 \<and>
           stack st1 = pop_while indent (stack st) @ [(indent, txt)] \<and>
           output st1 = output st @ [] # path_lines (stack st1) \<and>
           output st1 =
             output st @ [] # path_lines (pop_while indent (stack st)) @
               [chain_line (length (pop_while indent (stack st))) txt] \<and>
           (pop_while indent (stack st) = [] \<longrightarrow>
              output st1 = output st @ [[], [0x2D, 0x20] @ txt]) \<and>
           (\<forall>mid raw2 txt2.
              list_all (deeper_or_skipped indent) mid \<and>
              is_item_line raw2 indent True txt2 \<longrightarrow>
              (\<exists>stm st2. run_lines st1 mid = Inr stm \<and>
                 process_line stm raw2 = Inr st2 \<and>
                 output st2 =
                   output stm @ [] # path_lines (pop_while indent (stack st)) @
                     [chain_line (length (pop_while indent (stack st))) txt2]))"
proof -
  let ?a = "popped_stack indent (stack st)"
  let ?st1 = "push_emit indent True txt (unwound indent st)"
  have run: "process_line st raw = Inr ?st1"
    using assms by (rule process_line_item)
  have stk: "stack ?st1 = ?a @ [(indent, txt)]"
    by simp
  have out: "output ?st1 = output st @ [] # path_lines (stack ?st1)"
    by (simp add: output_push_emit_checkbox)
  have out': "output ?st1 = output st @ [] # path_lines ?a @ [chain_line (length ?a) txt]"
    by (simp add: output_push_emit_checkbox path_lines_snoc)
  have none: "?a = [] \<longrightarrow> output ?st1 = output st @ [[], [0x2D, 0x20] @ txt]"
    using out' by (auto simp: path_lines_def chain_line_def)
  have sib: "\<exists>stm st2. run_lines ?st1 mid = Inr stm \<and>
                 process_line stm raw2 = Inr st2 \<and>
                 output st2 = output stm @ [] # path_lines ?a @ [chain_line (length ?a) txt2]"
    if mid: "list_all (deeper_or_skipped indent) mid"
      and item2: "is_item_line raw2 indent True txt2" for mid raw2 txt2
  proof -
    from run_lines_deeper [OF mid, of ?st1 "?a @ [(indent, txt)]" "[]"]
    obtain stm extra' where stm: "run_lines ?st1 mid = Inr stm"
        "stack stm = (?a @ [(indent, txt)]) @ extra'" "\<forall>e\<in>set extra'. indent < fst e"
      by auto
    from stm(3) have "\<forall>e\<in>set extra'. indent \<le> fst e" by auto
    then have "popped_stack indent (stack stm) = popped_stack indent (?a @ [(indent, txt)])"
      unfolding stm(2) by (rule popped_stack_append_all)
    also have "\<dots> = popped_stack indent ?a"
      by (simp add: popped_stack_snoc)
    also have "\<dots> = ?a"
      by (rule popped_stack_idem)
    finally have pop: "popped_stack indent (stack stm) = ?a" .
    let ?st2 = "push_emit indent True txt2 (unwound indent stm)"
    have "process_line stm raw2 = Inr ?st2"
      using item2 by (rule process_line_item)
    moreover have "output ?st2 = output stm @ [] # path_lines ?a @ [chain_line (length ?a) txt2]"
      by (simp add: output_push_emit_checkbox path_lines_snoc pop)
    ultimately show ?thesis using stm(1) by blast
  qed
  show ?thesis
    unfolding pop_while_eq
    using run stk out out' none sib by blast
qed

theorem checkbox_emits_ancestor_path_witness:
  "is_item_line (py ''- [ ] a'') 0 True (py ''a'') \<and>
   list_all (deeper_or_skipped 0) [py ''  - c''] \<and>
   is_item_line (py ''- [ ] b'') 0 True (py ''b'') \<and>
   (\<exists>st1. process_line init_state (py ''- [ ] a'') = Inr st1 \<and>
      output st1 = [[], py ''- a''] \<and>
      (\<exists>stm st2. run_lines st1 [py ''  - c''] = Inr stm \<and>
         process_line stm (py ''- [ ] b'') = Inr st2 \<and>
         output st2 = output stm @ [[], py ''- b'']))"
proof -
  have h1: "is_item_line (py ''- [ ] a'') 0 True (py ''a'')"
    by (simp add: eval_defs)
  have h2: "list_all (deeper_or_skipped 0) [py ''  - c'']"
    by (simp add: eval_defs)
  have h3: "is_item_line (py ''- [ ] b'') 0 True (py ''b'')"
    by (simp add: eval_defs)
  have pw: "pop_while 0 (stack init_state) = []"
    by (simp add: pop_while.simps init_state_def)
  have o: "output init_state = []"
    by (simp add: init_state_def)
  from checkbox_emits_ancestor_path [OF h1, of init_state]
  obtain st1 where st1: "process_line init_state (py ''- [ ] a'') = Inr st1"
    "output st1 = [[], py ''- a'']"
    "\<forall>mid raw2 txt2.
        list_all (deeper_or_skipped 0) mid \<and> is_item_line raw2 0 True txt2 \<longrightarrow>
        (\<exists>stm st2. run_lines st1 mid = Inr stm \<and> process_line stm raw2 = Inr st2 \<and>
           output st2 = output stm @ [[], [0x2D, 0x20] @ txt2])"
    unfolding pw o by (auto simp: path_lines_def chain_line_def py_def)
  from st1(3) h2 h3
  have "\<exists>stm st2. run_lines st1 [py ''  - c''] = Inr stm \<and>
         process_line stm (py ''- [ ] b'') = Inr st2 \<and>
         output st2 = output stm @ [[], [0x2D, 0x20] @ py ''b'']"
    by blast
  then have "\<exists>stm st2. run_lines st1 [py ''  - c''] = Inr stm \<and>
         process_line stm (py ''- [ ] b'') = Inr st2 \<and>
         output st2 = output stm @ [[], py ''- b'']"
    by (simp add: py_def)
  with h1 h2 h3 st1(1,2) show ?thesis by blast
qed

text \<open>
  Claim C2. A line classified as a plain bullet appends a line if and only if the
  collecting mode is active and the indentation of the line is strictly greater than the
  recorded indentation of the checkbox; the line appended is two spaces repeated (length
  of the stack after the push, minus one) times, a dash with a space, and the text.
\<close>

theorem bullet_emitted_iff_collecting_child:
  assumes "is_item_line raw indent False txt"
  shows "\<exists>st1. process_line st raw = Inr st1 \<and>
           output st1 =
             (if collects_child indent st
              then output st @ [chain_line (length (stack st1) - 1) txt]
              else output st)"
  using assms
  by (simp add: process_line_item output_push_emit_bullet collects_child_unwound)

theorem bullet_emitted_iff_collecting_child_witness:
  "is_item_line (py ''  - c'') 2 False (py ''c'') \<and>
   (\<exists>st1. process_line
            \<lparr>output = [], stack = [(0, py ''a'')], collecting = True,
             collect_indent = Some 0, root_stack_len = 1\<rparr> (py ''  - c'') = Inr st1 \<and>
          output st1 = [py ''  - c'']) \<and>
   (\<exists>st1. process_line init_state (py ''  - c'') = Inr st1 \<and> output st1 = [])"
proof -
  let ?st = "\<lparr>output = [], stack = [(0, py ''a'')], collecting = True,
             collect_indent = Some 0, root_stack_len = 1\<rparr>"
  have h: "is_item_line (py ''  - c'') 2 False (py ''c'')"
    by (simp add: eval_defs)
  have c1: "collects_child 2 ?st"
    by (simp add: collects_child_def)
  have c2: "\<not> collects_child 2 init_state"
    by (simp add: collects_child_def init_state_def)
  from bullet_emitted_iff_collecting_child [OF h, of ?st] c1
  obtain st1 where st1: "process_line ?st (py ''  - c'') = Inr st1"
      "output st1 = [chain_line (length (stack st1) - 1) (py ''c'')]"
    by auto
  from process_line_item [OF h, of ?st] st1(1)
  have "stack st1 = popped_stack 2 [(0, py ''a'')] @ [(2, py ''c'')]"
    by auto
  then have "length (stack st1) - 1 = 1"
    by (simp add: popped_stack_def)
  with st1(2) have "output st1 = [py ''  - c'']"
    by (simp add: chain_line_def py_def)
  with st1(1) have a: "\<exists>st1. process_line ?st (py ''  - c'') = Inr st1 \<and>
          output st1 = [py ''  - c'']"
    by blast
  from bullet_emitted_iff_collecting_child [OF h, of init_state] c2
  have b: "\<exists>st1. process_line init_state (py ''  - c'') = Inr st1 \<and> output st1 = []"
    by (simp add: init_state_def)
  from h a b show ?thesis by blast
qed

text \<open>
  Claim C3. For a classified line the loop pops the stack while it is not empty and the
  indentation of the line is less than or equal to that of the top entry; the collecting
  mode is switched off exactly when the loop runs and the indentation is also less than
  or equal to the recorded one; the item is pushed afterwards.
\<close>

theorem stack_adjusted_before_push:
  assumes "is_item_line raw indent cb txt"
  shows "\<exists>st1 st2.
           adjust_stack indent st = Inr st1 \<and>
           stack st1 = pop_while indent (stack st) \<and>
           (collecting st1 \<longleftrightarrow>
              collecting st \<and>
              \<not> (enters_loop indent st \<and>
                   (\<exists>ci. collect_indent st = Some ci \<and> indent \<le> ci))) \<and>
           output st1 = output st \<and>
           process_line st raw = Inr st2 \<and>
           stack st2 = stack st1 @ [(indent, txt)]"
proof -
  have "adjust_stack indent st = Inr (unwound indent st)"
    by (simp add: adjust_stack_eq unwound_def)
  moreover have "collecting (unwound indent st) \<longleftrightarrow>
      collecting st \<and>
      \<not> (enters_loop indent st \<and> (\<exists>ci. collect_indent st = Some ci \<and> indent \<le> ci))"
    by (auto simp: collecting_unwound leaves_collection_def split: option.splits)
  ultimately show ?thesis
    using assms by (simp add: process_line_item pop_while_eq)
qed

theorem stack_adjusted_before_push_witness:
  "is_item_line (py ''  - c'') 2 False (py ''c'') \<and>
   (\<exists>st1 st2.
      adjust_stack 2
        \<lparr>output = [], stack = [(0, py ''a''), (2, py ''b'')], collecting = True,
         collect_indent = Some 2, root_stack_len = 2\<rparr> = Inr st1 \<and>
      stack st1 = [(0, py ''a'')] \<and> \<not> collecting st1 \<and>
      process_line
        \<lparr>output = [], stack = [(0, py ''a''), (2, py ''b'')], collecting = True,
         collect_indent = Some 2, root_stack_len = 2\<rparr> (py ''  - c'') = Inr st2 \<and>
      stack st2 = [(0, py ''a''), (2, py ''c'')])"
proof -
  let ?st = "\<lparr>output = [], stack = [(0, py ''a''), (2, py ''b'')], collecting = True,
         collect_indent = Some 2, root_stack_len = 2\<rparr>"
  have h: "is_item_line (py ''  - c'') 2 False (py ''c'')"
    by (simp add: eval_defs)
  have pw: "pop_while 2 (stack ?st) = [(0, py ''a'')]"
    by (simp add: pop_while.simps)
  have el: "enters_loop 2 ?st"
    by (simp add: enters_loop_def)
  from stack_adjusted_before_push [OF h, of ?st] h el
  show ?thesis unfolding pw by auto
qed

section \<open>The whole run\<close>

lemma run_lines_append:
  "run_lines st (xs @ ys) =
     (case run_lines st xs of Inl e \<Rightarrow> Inl e | Inr st1 \<Rightarrow> run_lines st1 ys)"
  by (induction xs arbitrary: st) (auto split: sum.splits)

lemma process_line_total: "\<exists>st1. process_line st raw = Inr st1"
  using line_cases [of raw] process_line_skipped [of raw st] process_line_item [of raw _ _ _ st]
  by metis

lemma run_lines_total: "\<exists>st1. run_lines st ls = Inr st1"
proof (induction ls arbitrary: st)
  case Nil
  then show ?case by simp
next
  case (Cons l ls)
  from process_line_total [of st l] obtain st1 where "process_line st l = Inr st1" ..
  with Cons [of st1] show ?case by simp
qed

lemma popped_stack_strict:
  assumes "sorted_wrt (<) (map fst s)"
  shows "sorted_wrt (<) (map fst (popped_stack n s)) \<and> (\<forall>e\<in>set (popped_stack n s). fst e < n)"
  using assms
proof (induction s rule: rev_induct)
  case Nil
  then show ?case by (simp add: popped_stack_def)
next
  case (snoc e s)
  then show ?case
    by (auto simp: popped_stack_snoc sorted_wrt_append)
qed

lemma process_line_strict:
  assumes "strict_stack st" and "process_line st raw = Inr st1"
  shows "strict_stack st1"
proof (cases "is_skipped_line raw")
  case True
  with assms show ?thesis by (simp add: process_line_skipped)
next
  case False
  with line_cases [of raw] obtain cb t
    where item: "is_item_line raw (indent_of (norm_line raw)) cb t" by blast
  let ?n = "indent_of (norm_line raw)"
  from assms(2) process_line_item [OF item, of st]
  have "stack st1 = popped_stack ?n (stack st) @ [(?n, t)]" by auto
  with popped_stack_strict [of "stack st" ?n] assms(1) show ?thesis
    by (auto simp: strict_stack_def sorted_wrt_append)
qed

lemma run_lines_strict:
  assumes "strict_stack st" and "run_lines st ls = Inr st1"
  shows "strict_stack st1"
  using assms
proof (induction ls arbitrary: st)
  case Nil
  then show ?case by simp
next
  case (Cons l ls)
  from process_line_total [of st l] obtain st2 where st2: "process_line st l = Inr st2" ..
  with Cons.prems have "strict_stack st2" "run_lines st2 ls = Inr st1"
    by (auto dest: process_line_strict)
  then show ?case by (rule Cons.IH)
qed

text \<open>
  Claim C4. After every processed line of every input text, the indentations of the
  ancestor stack increase strictly from index 0 to the last entry.
\<close>

theorem ancestor_stack_strictly_increasing:
  "\<exists>st. run_lines init_state (take k (splitlines text)) = Inr st \<and>
         sorted_wrt (<) (map fst (stack st))"
proof -
  from run_lines_total obtain st
    where st: "run_lines init_state (take k (splitlines text)) = Inr st" ..
  have "strict_stack init_state"
    by (simp add: strict_stack_def init_state_def)
  from run_lines_strict [OF this st] st show ?thesis
    by (auto simp: strict_stack_def)
qed

text \<open>
  Claim C8. On every input text \<open>build_report\<close> returns a list of strings: no index
  error is raised by the reads and pops of the stack, and every loop terminates.
\<close>

theorem build_report_total: "\<exists>report. build_report text = Inr report"
proof -
  from run_lines_total obtain st
    where "run_lines init_state (splitlines text) = Inr st" ..
  then show ?thesis by (simp add: build_report_def)
qed

lemma run_lines_all_skipped:
  "list_all is_skipped_line ls \<Longrightarrow> run_lines st ls = Inr st"
  by (induction ls) (simp_all add: process_line_skipped)

text \<open>
  Claim C9. The empty text gives the empty report, and so does every text none of whose
  lines that are not blank matches the checkbox pattern or the bullet pattern.
\<close>

theorem build_report_no_items_empty:
  "build_report [] = Inr [] \<and>
   ((\<forall>l\<in>set (splitlines text). strip l \<noteq> [] \<longrightarrow> matches_no_pattern l) \<longrightarrow>
    build_report text = Inr [])"
proof
  show "build_report [] = Inr []"
    by (simp add: build_report_def splitlines.simps init_state_def)
next
  show "(\<forall>l\<in>set (splitlines text). strip l \<noteq> [] \<longrightarrow> matches_no_pattern l) \<longrightarrow>
    build_report text = Inr []"
  proof
    assume a: "\<forall>l\<in>set (splitlines text). strip l \<noteq> [] \<longrightarrow> matches_no_pattern l"
    have "list_all is_skipped_line (splitlines text)"
      unfolding list_all_iff
    proof
      fix l assume "l \<in> set (splitlines text)"
      with a have "strip l \<noteq> [] \<longrightarrow> matches_no_pattern l" by blast
      then show "is_skipped_line l"
        by (auto simp: is_skipped_line_def matches_no_pattern_def classify_def)
    qed
    then have "run_lines init_state (splitlines text) = Inr init_state"
      by (rule run_lines_all_skipped)
    then show "build_report text = Inr []"
      by (simp add: build_report_def init_state_def)
  qed
qed

lemma splitlines_hello:
  "splitlines (py ''Notes\<newline>\<newline>[x] done'') = [py ''Notes'', [], py ''[x] done'']"
  by (simp add: py_def splitlines.simps islinebreak_def after_break_def)

theorem build_report_no_items_empty_witness:
  "splitlines (py ''Notes\<newline>\<newline>[x] done'') = [py ''Notes'', [], py ''[x] done''] \<and>
   matches_no_pattern (py ''Notes'') \<and> strip [] = [] \<and>
   matches_no_pattern (py ''[x] done'') \<and>
   build_report (py ''Notes\<newline>\<newline>[x] done'') = Inr []"
proof -
  have n1: "matches_no_pattern (py ''Notes'')"
    by (simp add: matches_no_pattern_def eval_defs)
  have n2: "matches_no_pattern (py ''[x] done'')"
    by (simp add: matches_no_pattern_def eval_defs)
  have n3: "strip [] = []"
    by (simp add: eval_defs)
  have "\<forall>l\<in>set (splitlines (py ''Notes\<newline>\<newline>[x] done'')).
          strip l \<noteq> [] \<longrightarrow> matches_no_pattern l"
    unfolding splitlines_hello using n1 n2 n3 by simp
  with build_report_no_items_empty [of "py ''Notes\<newline>\<newline>[x] done''"]
  have "build_report (py ''Notes\<newline>\<newline>[x] done'') = Inr []"
    by blast
  with n1 n2 n3 splitlines_hello show ?thesis by simp
qed

section \<open>Plain bullets outside a checkbox\<close>

lemma last_checkbox_indent_snoc:
  "last_checkbox_indent (ls @ [l]) =
     (case checkbox_indent l of Some n \<Rightarrow> Some n | None \<Rightarrow> last_checkbox_indent ls)"
  by (induction ls) (auto split: option.splits)

lemma checkbox_indent_skipped: "is_skipped_line l \<Longrightarrow> checkbox_indent l = None"
  by (auto simp: is_skipped_line_def checkbox_indent_def)

lemma checkbox_indent_item:
  "is_item_line l n cb t \<Longrightarrow> checkbox_indent l = (if cb then Some n else None)"
  by (simp add: is_item_line_def checkbox_indent_def)

lemma collecting_push_emit:
  "collecting (push_emit n cb t st) \<longleftrightarrow> cb \<or> collecting st"
  by (simp add: push_emit_def Let_def)

lemma collect_indent_push_emit:
  "collect_indent (push_emit n cb t st) = (if cb then Some n else collect_indent st)"
  by (simp add: push_emit_def Let_def)

lemma collect_unwound:
  "collecting (unwound n st) \<Longrightarrow>
   collecting st \<and> collect_indent (unwound n st) = collect_indent st"
  by (auto simp: unwound_def stop_collecting_def split: if_splits)

lemma process_line_collect:
  assumes "process_line st l = Inr st1" and "collecting st1" and "collect_indent st1 = Some ci"
  shows "checkbox_indent l = Some ci \<or>
         (checkbox_indent l = None \<and> collecting st \<and> collect_indent st = Some ci)"
proof (cases "is_skipped_line l")
  case True
  with assms show ?thesis
    by (simp add: process_line_skipped checkbox_indent_skipped)
next
  case False
  with line_cases [of l] obtain cb t
    where item: "is_item_line l (indent_of (norm_line l)) cb t" by blast
  let ?n = "indent_of (norm_line l)"
  from assms(1) process_line_item [OF item, of st]
  have st1: "st1 = push_emit ?n cb t (unwound ?n st)" by simp
  show ?thesis
  proof (cases cb)
    case True
    with assms(3) st1 item show ?thesis
      by (simp add: collect_indent_push_emit checkbox_indent_item)
  next
    case False
    with assms(2,3) st1 have "collecting (unwound ?n st)"
      "collect_indent (unwound ?n st) = Some ci"
      by (simp_all add: collecting_push_emit collect_indent_push_emit)
    with collect_unwound [of ?n st] have "collecting st \<and> collect_indent st = Some ci"
      by simp
    with False item show ?thesis
      by (simp add: checkbox_indent_item)
  qed
qed

lemma collect_indent_is_last_checkbox:
  "run_lines init_state ls = Inr st \<Longrightarrow> collecting st \<Longrightarrow> collect_indent st = Some ci \<Longrightarrow>
   last_checkbox_indent ls = Some ci"
proof (induction ls arbitrary: st ci rule: rev_induct)
  case Nil
  then have "st = init_state" by simp
  with Nil.prems(2) show ?case by (simp add: init_state_def)
next
  case (snoc l ls)
  from run_lines_total obtain st0 where st0: "run_lines init_state ls = Inr st0" ..
  with snoc.prems(1) have step: "process_line st0 l = Inr st"
    by (simp add: run_lines_append split: sum.splits)
  from process_line_collect [OF step snoc.prems(2,3)]
  show ?case
  proof
    assume "checkbox_indent l = Some ci"
    then show ?thesis by (simp add: last_checkbox_indent_snoc)
  next
    assume a: "checkbox_indent l = None \<and> collecting st0 \<and> collect_indent st0 = Some ci"
    with snoc.IH [OF st0] have "last_checkbox_indent ls = Some ci" by simp
    with a show ?thesis by (simp add: last_checkbox_indent_snoc)
  qed
qed

text \<open>
  Claim C7. A plain bullet whose indentation is less than or equal to that of the most
  recent checkbox item, or before which no checkbox item was seen, appends nothing to
  the output; the stack is popped and the item is pushed.
\<close>

theorem bullet_outside_checkbox_silent:
  assumes "k < length (splitlines text)"
    and "is_item_line (splitlines text ! k) indent False txt"
    and "case last_checkbox_indent (take k (splitlines text)) of
           None \<Rightarrow> True | Some ci \<Rightarrow> indent \<le> ci"
  shows "\<exists>st st1. run_lines init_state (take k (splitlines text)) = Inr st \<and>
           run_lines init_state (take (Suc k) (splitlines text)) = Inr st1 \<and>
           output st1 = output st \<and>
           stack st1 = pop_while indent (stack st) @ [(indent, txt)]"
proof -
  let ?ls = "take k (splitlines text)" and ?l = "splitlines text ! k"
  from run_lines_total obtain st where st: "run_lines init_state ?ls = Inr st" ..
  let ?st1 = "push_emit indent False txt (unwound indent st)"
  have step: "process_line st ?l = Inr ?st1"
    using assms(2) by (rule process_line_item)
  have "take (Suc k) (splitlines text) = ?ls @ [?l]"
    using assms(1) by (rule take_Suc_conv_app_nth)
  with st step have run: "run_lines init_state (take (Suc k) (splitlines text)) = Inr ?st1"
    by (simp add: run_lines_append)
  have "\<not> collects_child indent st"
  proof
    assume "collects_child indent st"
    then obtain ci where ci: "collecting st" "collect_indent st = Some ci" "ci < indent"
      by (auto simp: collects_child_def split: option.splits)
    from collect_indent_is_last_checkbox [OF st ci(1,2)] assms(3) ci(3)
    show False by simp
  qed
  then have "output ?st1 = output st"
    by (simp add: output_push_emit_bullet collects_child_unwound)
  moreover have "stack ?st1 = pop_while indent (stack st) @ [(indent, txt)]"
    by (simp add: pop_while_eq)
  ultimately show ?thesis using st run by blast
qed

lemma silent_lines:
  "splitlines (py ''- a\<newline>  - [ ] b\<newline>  - c\<newline>'') =
     [py ''- a'', py ''  - [ ] b'', py ''  - c'']"
  by (simp add: py_def splitlines.simps islinebreak_def after_break_def)

theorem bullet_outside_checkbox_silent_witness:
  "2 < length (splitlines (py ''- a\<newline>  - [ ] b\<newline>  - c\<newline>'')) \<and>
   is_item_line (splitlines (py ''- a\<newline>  - [ ] b\<newline>  - c\<newline>'') ! 2) 2 False (py ''c'') \<and>
   last_checkbox_indent (take 2 (splitlines (py ''- a\<newline>  - [ ] b\<newline>  - c\<newline>''))) = Some 2 \<and>
   (\<exists>st st1.
      run_lines init_state (take 2 (splitlines (py ''- a\<newline>  - [ ] b\<newline>  - c\<newline>''))) = Inr st \<and>
      run_lines init_state (take 3 (splitlines (py ''- a\<newline>  - [ ] b\<newline>  - c\<newline>''))) = Inr st1 \<and>
      output st1 = output st \<and>
      stack st1 = pop_while 2 (stack st) @ [(2, py ''c'')])"
proof -
  let ?t = "py ''- a\<newline>  - [ ] b\<newline>  - c\<newline>''"
  have h1: "2 < length (splitlines ?t)"
    by (simp add: silent_lines)
  have h2: "is_item_line (splitlines ?t ! 2) 2 False (py ''c'')"
    unfolding silent_lines by (simp add: eval_defs)
  have c1: "checkbox_indent (py ''- a'') = None"
    by (simp add: checkbox_indent_def eval_defs)
  have c2: "checkbox_indent (py ''  - [ ] b'') = Some 2"
    by (simp add: checkbox_indent_def eval_defs)
  have h3: "last_checkbox_indent (take 2 (splitlines ?t)) = Some 2"
    unfolding silent_lines by (simp add: c1 c2)
  have h3': "case last_checkbox_indent (take 2 (splitlines ?t)) of
               None \<Rightarrow> True | Some ci \<Rightarrow> 2 \<le> ci"
    by (simp add: h3)
  from bullet_outside_checkbox_silent [OF h1 h2 h3'] h1 h2 h3
  show ?thesis by (simp add: eval_nat_numeral)
qed

section \<open>The scenario of the test suite\<close>

lemmas state_defs =
  push_emit_def unwound_def popped_stack_def enters_loop_def stop_collecting_def
  leaves_collection_def init_state_def report_line_def Let_def

lemma scenario_lines:
  "splitlines (py ''- Parent\<newline>  - [ ] Root task\<newline>    - Child 1\<newline>    - Child 2\<newline>'') =
     [py ''- Parent'', py ''  - [ ] Root task'', py ''    - Child 1'', py ''    - Child 2'']"
  by (simp add: py_def splitlines.simps islinebreak_def after_break_def)

lemma scenario_line1: "is_item_line (py ''- Parent'') 0 False (py ''Parent'')"
  by (simp add: eval_defs)

lemma scenario_line2: "is_item_line (py ''  - [ ] Root task'') 2 True (py ''Root task'')"
  by (simp add: eval_defs)

lemma scenario_line3: "is_item_line (py ''    - Child 1'') 4 False (py ''Child 1'')"
  by (simp add: eval_defs)

lemma scenario_line4: "is_item_line (py ''    - Child 2'') 4 False (py ''Child 2'')"
  by (simp add: eval_defs)

text \<open>
  Claim C6. The text of a parent, a checkbox item below it and two children gives the
  blank line, the parent, the checkbox item and the two children.
\<close>

theorem build_report_children_scenario:
  "build_report (py ''- Parent\<newline>  - [ ] Root task\<newline>    - Child 1\<newline>    - Child 2\<newline>'') =
     Inr [py '''', py ''- Parent'', py ''  - Root task'', py ''    - Child 1'',
          py ''    - Child 2'']"
proof -
  let ?s1 = "\<lparr>output = [], stack = [(0, py ''Parent'')], collecting = False,
              collect_indent = None, root_stack_len = 0\<rparr>"
  let ?s2 = "\<lparr>output = [py '''', py ''- Parent'', py ''  - Root task''],
              stack = [(0, py ''Parent''), (2, py ''Root task'')], collecting = True,
              collect_indent = Some 2, root_stack_len = 2\<rparr>"
  let ?s3 = "\<lparr>output = [py '''', py ''- Parent'', py ''  - Root task'', py ''    - Child 1''],
              stack = [(0, py ''Parent''), (2, py ''Root task''), (4, py ''Child 1'')],
              collecting = True, collect_indent = Some 2, root_stack_len = 2\<rparr>"
  let ?s4 = "\<lparr>output = [py '''', py ''- Parent'', py ''  - Root task'', py ''    - Child 1'',
                        py ''    - Child 2''],
              stack = [(0, py ''Parent''), (2, py ''Root task''), (4, py ''Child 2'')],
              collecting = True, collect_indent = Some 2, root_stack_len = 2\<rparr>"
  have 1: "process_line init_state (py ''- Parent'') = Inr ?s1"
    by (subst process_line_item [OF scenario_line1]) (simp add: state_defs py_def)
  have 2: "process_line ?s1 (py ''  - [ ] Root task'') = Inr ?s2"
    by (subst process_line_item [OF scenario_line2]) (simp add: state_defs py_def)
  have 3: "process_line ?s2 (py ''    - Child 1'') = Inr ?s3"
    by (subst process_line_item [OF scenario_line3]) (simp add: state_defs py_def)
  have 4: "process_line ?s3 (py ''    - Child 2'') = Inr ?s4"
    by (subst process_line_item [OF scenario_line4]) (simp add: state_defs py_def)
  show ?thesis
    unfolding build_report_def scenario_lines run_lines.simps 1 2 3 4 sum.case
    by simp
qed

section \<open>Indentation\<close>

lemma rstrip_chars_Cons:
  "rstrip_chars chars (c # cs) =
     (if rstrip_chars chars cs = [] \<and> c \<in> set chars then [] else c # rstrip_chars chars cs)"
  by (auto simp: rstrip_chars_def dropWhile_append)

lemma leading_spaces_rstrip_chars:
  "0x20 \<notin> set chars \<Longrightarrow> leading_spaces (rstrip_chars chars s) = leading_spaces s"
proof (induction s)
  case Nil
  then show ?case by (simp add: rstrip_chars_def)
next
  case (Cons c cs)
  show ?case
  proof (cases "rstrip_chars chars cs = [] \<and> c \<in> set chars")
    case True
    with Cons.prems have "c \<noteq> 0x20" by auto
    with True show ?thesis by (simp add: rstrip_chars_Cons leading_spaces_def)
  next
    case False
    with Cons show ?thesis by (simp add: rstrip_chars_Cons leading_spaces_def)
  qed
qed

lemma indent_of_leading_spaces: "indent_of line = leading_spaces line"
proof -
  have "length line = length (takeWhile (\<lambda>c. c = 0x20) line) + length (dropWhile (\<lambda>c. c = 0x20) line)"
    by (metis length_append takeWhile_dropWhile_id)
  then show ?thesis
    by (simp add: indent_of_def leading_spaces_def lstrip_chars_def)
qed

lemma leading_width_ge: "col \<le> leading_width col s"
proof (induction s arbitrary: col)
  case Nil
  then show ?case by simp
next
  case (Cons c cs)
  from Cons [of "col + 1"] Cons [of "col + (4 - col mod 4)"] show ?case
    by auto
qed

lemma leading_spaces_replicate:
  "leading_spaces (replicate k 0x20 @ s) = k + leading_spaces s"
  by (induction k) (simp_all add: leading_spaces_def)

lemma leading_spaces_expandtabs_from:
  "leading_spaces (expandtabs_from 4 col s) = leading_width col s - col"
proof (induction s arbitrary: col)
  case Nil
  then show ?case by (simp add: leading_spaces_def)
next
  case (Cons c cs)
  show ?case
  proof (cases "c = 0x09")
    case True
    let ?k = "4 - col mod 4"
    have "leading_spaces (expandtabs_from 4 col (c # cs)) =
          ?k + leading_spaces (expandtabs_from 4 (col + ?k) cs)"
      using True by (simp add: leading_spaces_replicate)
    also have "\<dots> = ?k + (leading_width (col + ?k) cs - (col + ?k))"
      by (simp only: Cons)
    also have "\<dots> = leading_width (col + ?k) cs - col"
      using leading_width_ge [of "col + ?k" cs] by simp
    finally show ?thesis using True by simp
  next
    case False
    show ?thesis
    proof (cases "c = 0x20")
      case True
      have "leading_spaces (expandtabs_from 4 col (c # cs)) =
            1 + leading_spaces (expandtabs_from 4 (col + 1) cs)"
        using True by (simp add: leading_spaces_def)
      also have "\<dots> = 1 + (leading_width (col + 1) cs - (col + 1))"
        by (simp only: Cons)
      also have "\<dots> = leading_width (col + 1) cs - col"
        using leading_width_ge [of "col + 1" cs] by simp
      finally show ?thesis using True by simp
    next
      case c: False
      with False show ?thesis by (simp add: leading_spaces_def)
    qed
  qed
qed

lemma replicate_3: "replicate 3 x = [x, x, x]"
  by (simp add: numeral_3_eq_3)

lemma replicate_4: "replicate 4 x = [x, x, x, x]"
proof -
  have "(4::nat) = Suc 3" by simp
  then show ?thesis by (simp only: replicate.simps replicate_3)
qed

text \<open>
  Claim C5, as stated: the indentation is the number of leading spaces once every tab is
  replaced by four spaces. It fails on a line that starts with a space and a tab: the
  tab reaches column 4, so the indentation is 4, not 5.
\<close>

theorem indent_four_spaces_per_tab_counterexample:
  "indent_of (norm_line (py '' '' @ [0x09] @ py ''- x'')) = 4 \<and>
   leading_spaces (tabs_to_four_spaces (py '' '' @ [0x09] @ py ''- x'')) = 5"
  by (simp add: py_def norm_line_def expandtabs_def rstrip_chars_def indent_of_def
      lstrip_chars_def tabs_to_four_spaces_def leading_spaces_def replicate_3 replicate_4)

text \<open>
  Claim C5, amended: the indentation is the number of leading spaces after the expansion
  of tabs to tab stops at every fourth column, that is the column reached by the leading
  spaces and tabs of the raw line.
\<close>

theorem indent_counts_to_tab_stops:
  "indent_of (norm_line raw_line) = leading_spaces (expandtabs 4 raw_line) \<and>
   indent_of (norm_line raw_line) = leading_width 0 raw_line"
proof -
  have "indent_of (norm_line raw_line) = leading_spaces (expandtabs 4 raw_line)"
    by (simp add: indent_of_leading_spaces norm_line_def leading_spaces_rstrip_chars)
  moreover have "leading_spaces (expandtabs 4 raw_line) = leading_width 0 raw_line"
    by (simp add: expandtabs_def leading_spaces_expandtabs_from)
  ultimately show ?thesis by simp
qed

section \<open>The checkbox pattern\<close>

lemma not_isspace_bracket: "\<not> isspace 0x5D"
  by (simp add: isspace_def)

lemma match_brackets_intro:
  assumes "list_all isspace ws"
  shows "match_brackets (0x5B # ws @ 0x5D # r) = Some r"
proof -
  have "dropWhile isspace (ws @ 0x5D # r) = 0x5D # r"
    using assms not_isspace_bracket by (simp add: dropWhile_append list_all_iff)
  then show ?thesis by (simp add: match_brackets_def)
qed

lemma match_brackets_elim:
  assumes "match_brackets s = Some r"
  shows "\<exists>ws. s = 0x5B # ws @ 0x5D # r \<and> list_all isspace ws"
proof -
  from assms obtain c cs where s: "s = c # cs"
    by (cases s) (simp_all add: match_brackets_def)
  with assms have c: "c = 0x5B"
    by (simp add: match_brackets_def split: if_splits)
  with assms s obtain d ds where d: "dropWhile isspace cs = d # ds"
    by (cases "dropWhile isspace cs") (simp_all add: match_brackets_def)
  with assms s c have dr: "d = 0x5D" "ds = r"
    by (simp_all add: match_brackets_def split: if_splits)
  have "takeWhile isspace cs @ dropWhile isspace cs = cs"
    by (rule takeWhile_dropWhile_id)
  then have "takeWhile isspace cs @ 0x5D # r = cs"
    unfolding d dr .
  then have "s = 0x5B # takeWhile isspace cs @ 0x5D # r"
    using s c by simp
  moreover have "list_all isspace (takeWhile isspace cs)"
    by (auto simp: list_all_iff dest: set_takeWhileD)
  ultimately show ?thesis by blast
qed

lemma token_at_match:
  assumes "token_at s i j"
  shows "match_brackets (drop i s) = Some (drop (Suc j) s)"
proof -
  from assms have ij: "i < j" "j < length s" and bi: "s ! i = 0x5B" and bj: "s ! j = 0x5D"
    and ws: "list_all isspace (take (j - Suc i) (drop (Suc i) s))"
    by (simp_all add: token_at_def)
  let ?ws = "take (j - Suc i) (drop (Suc i) s)"
  have 1: "drop i s = 0x5B # drop (Suc i) s"
    using ij bi Cons_nth_drop_Suc [of i s] by simp
  have "drop (j - Suc i) (drop (Suc i) s) = drop j s"
    using ij by simp
  with append_take_drop_id [of "j - Suc i" "drop (Suc i) s"]
  have 2: "?ws @ drop j s = drop (Suc i) s"
    by (simp only:)
  have 3: "drop j s = 0x5D # drop (Suc j) s"
    using ij bj Cons_nth_drop_Suc [of j s] by simp
  have "drop i s = 0x5B # drop (Suc i) s"
    by (fact 1)
  also have "drop (Suc i) s = ?ws @ drop j s"
    by (simp only: 2)
  also have "drop j s = 0x5D # drop (Suc j) s"
    by (fact 3)
  finally have "drop i s = 0x5B # ?ws @ 0x5D # drop (Suc j) s" .
  then show ?thesis
    by (simp only: match_brackets_intro [OF ws])
qed

lemma match_token_starts:
  assumes "match_brackets (drop k s) = Some r"
  shows "token_starts_at s k"
proof -
  from match_brackets_elim [OF assms] obtain ws
    where d: "drop k s = 0x5B # ws @ 0x5D # r" and ws: "list_all isspace ws" by blast
  let ?j = "Suc k + length ws"
  from d have "length (drop k s) = Suc (Suc (length ws + length r))" by simp
  then have len: "?j < length s" by simp
  have nth: "s ! (k + n) = (drop k s) ! n" for n
    using len by simp
  have "s ! k = 0x5B" using nth [of 0] d by simp
  moreover have "s ! ?j = 0x5D"
    using nth [of "Suc (length ws)"] d by (simp add: nth_append)
  moreover have "drop (Suc k) s = ws @ 0x5D # r"
    using d by (metis drop_Suc list.sel(3) tl_drop)
  then have "take (?j - Suc k) (drop (Suc k) s) = ws" by simp
  ultimately have "token_at s k ?j"
    using ws len by (simp add: token_at_def)
  with len show ?thesis
    by (auto simp: token_starts_at_def list_ex_iff)
qed

lemma checkbox_match_at_first:
  assumes "\<forall>k<length a. match_brackets (drop k (a @ b)) = None"
    and "0x0A \<notin> set a" and "match_brackets b = Some r"
  shows "checkbox_match_at pre (a @ b) = Some (rev pre @ a, takeWhile (\<lambda>d. d \<noteq> 0x0A) r)"
  using assms
proof (induction a arbitrary: pre)
  case Nil
  then obtain c cs where "b = c # cs"
    by (cases b) (auto simp: match_brackets_def)
  with Nil show ?case by simp
next
  case (Cons x a)
  from Cons.prems(1) have "match_brackets (drop 0 ((x # a) @ b)) = None" by blast
  then have none: "match_brackets (x # a @ b) = None" by simp
  have "\<forall>k<length a. match_brackets (drop k (a @ b)) = None"
  proof (intro allI impI)
    fix k assume "k < length a"
    with Cons.prems(1) have "match_brackets (drop (Suc k) ((x # a) @ b)) = None" by auto
    then show "match_brackets (drop k (a @ b)) = None" by simp
  qed
  moreover from Cons.prems(2) have "x \<noteq> 0x0A" "0x0A \<notin> set a" by auto
  ultimately show ?case
    using Cons.IH [of "x # pre"] Cons.prems(3) none by simp
qed

lemma checkbox_search_at:
  "checkbox_match_at [] s = Some m \<Longrightarrow> checkbox_search s = Some m"
  by (cases s) simp_all

lemma checkbox_search_first_token:
  assumes "token_at s i j" and "no_token_before s i" and "0x0A \<notin> set s"
  shows "checkbox_search s = Some (take i s, drop (Suc j) s)"
proof -
  from assms(1) have ij: "i < j" "j < length s" by (simp_all add: token_at_def)
  have none: "\<forall>k<length (take i s). match_brackets (drop k (take i s @ drop i s)) = None"
  proof (intro allI impI)
    fix k assume "k < length (take i s)"
    then have "k < i" by simp
    with assms(2) have "\<not> token_starts_at s k"
      by (simp add: no_token_before_def list_all_iff)
    with match_token_starts [of k s] show "match_brackets (drop k (take i s @ drop i s)) = None"
      by (cases "match_brackets (drop k s)") auto
  qed
  have nl: "0x0A \<notin> set (take i s)"
    using assms(3) by (auto dest: in_set_takeD)
  have "takeWhile (\<lambda>d. d \<noteq> 0x0A) (drop (Suc j) s) = drop (Suc j) s"
    using assms(3) by (auto simp: takeWhile_eq_all_conv dest: in_set_dropD)
  with checkbox_match_at_first [OF none nl token_at_match [OF assms(1)], of "[]"]
  have "checkbox_match_at [] s = Some (take i s, drop (Suc j) s)" by simp
  then show ?thesis by (rule checkbox_search_at)
qed

lemma checkbox_text_join:
  "checkbox_text g1 g2 = join_text (sub_marker (strip g1)) (strip g2)"
  by (simp add: checkbox_text_def join_text_def Let_def py_def)

lemma splitlines_no_break:
  "l \<in> set (splitlines s) \<Longrightarrow> c \<in> set l \<Longrightarrow> \<not> islinebreak c"
proof (induction s rule: splitlines.induct)
  case (1 s)
  show ?case
  proof (cases "s = []")
    case True
    with "1.prems" show ?thesis by (simp add: splitlines.simps)
  next
    case False
    with "1.prems"(1) have "l = takeWhile (\<lambda>c. \<not> islinebreak c) s \<or>
        l \<in> set (splitlines (after_break (dropWhile (\<lambda>c. \<not> islinebreak c) s)))"
      by (subst (asm) splitlines.simps) simp
    then show ?thesis
    proof
      assume "l = takeWhile (\<lambda>c. \<not> islinebreak c) s"
      with "1.prems"(2) show ?thesis by (auto dest: set_takeWhileD)
    next
      assume "l \<in> set (splitlines (after_break (dropWhile (\<lambda>c. \<not> islinebreak c) s)))"
      with "1.IH" [OF False] "1.prems"(2) show ?thesis by simp
    qed
  qed
qed

lemma set_expandtabs_from:
  "set (expandtabs_from t col s) \<subseteq> insert 0x20 (set s)"
  by (induction s arbitrary: col) auto

lemma content_no_newline:
  assumes "raw \<in> set (splitlines text)"
  shows "0x0A \<notin> set (lstrip (norm_line raw))"
proof
  assume "0x0A \<in> set (lstrip (norm_line raw))"
  then have "0x0A \<in> set (norm_line raw)"
    by (auto simp: lstrip_def dest: set_dropWhileD)
  then have "0x0A \<in> set (expandtabs 4 raw)"
    by (auto simp: norm_line_def rstrip_chars_def dest: set_dropWhileD)
  with set_expandtabs_from [of 4 0 raw] have "(0x0A::nat) \<in> set raw"
    by (auto simp: expandtabs_def)
  with splitlines_no_break [OF assms] have "\<not> islinebreak 0x0A"
    by blast
  then show False
    by (simp add: islinebreak_def)
qed

text \<open>
  On a line of the input, the search of the checkbox pattern matches at the first
  empty-bracket token of the content: the line is a checkbox item, and its text joins
  what \<open>sub_marker\<close> leaves of the trimmed text before the token with the trimmed text
  after it.
\<close>

lemma first_token_classified:
  assumes "raw_line \<in> set (splitlines text)" and "strip raw_line \<noteq> []"
    and "content = lstrip (norm_line raw_line)"
    and "token_at content i j" and "no_token_before content i"
  shows "classify content =
           Some (True, join_text (sub_marker (strip (take i content)))
                                 (strip (drop (Suc j) content))) \<and>
         is_item_line raw_line (indent_of (norm_line raw_line)) True
           (join_text (sub_marker (strip (take i content))) (strip (drop (Suc j) content)))"
proof -
  from content_no_newline [OF assms(1)] assms(3) have "0x0A \<notin> set content" by simp
  from checkbox_search_first_token [OF assms(4,5) this]
  have "classify content =
           Some (True, join_text (sub_marker (strip (take i content)))
                                 (strip (drop (Suc j) content)))"
    by (simp add: classify_def checkbox_text_join)
  with assms(2,3) show ?thesis by (simp add: is_item_line_def)
qed

lemma w_lines:
  "splitlines (py ''- [x] done [ ] todo\<newline>'') = [py ''- [x] done [ ] todo'']"
  by (simp add: py_def splitlines.simps islinebreak_def after_break_def)

lemma w_content: "lstrip (norm_line (py ''- [x] done [ ] todo'')) = py ''- [x] done [ ] todo''"
  by (simp add: eval_defs)

lemma w_token: "token_at (py ''- [x] done [ ] todo'') 11 13"
  by (simp add: py_def token_at_def isspace_def)

lemma w_first: "no_token_before (py ''- [x] done [ ] todo'') 11"
  by code_simp

lemma w_text:
  "join_text (sub_marker (strip (take 11 (py ''- [x] done [ ] todo''))))
     (strip (drop (Suc 13) (py ''- [x] done [ ] todo''))) = py ''[x] done todo''"
  by (simp add: eval_defs join_text_def)

lemma first_token_classified_example:
  "py ''- [x] done [ ] todo'' \<in> set (splitlines (py ''- [x] done [ ] todo\<newline>'')) \<and>
   strip (py ''- [x] done [ ] todo'') \<noteq> [] \<and>
   py ''- [x] done [ ] todo'' = lstrip (norm_line (py ''- [x] done [ ] todo'')) \<and>
   token_at (py ''- [x] done [ ] todo'') 11 13 \<and>
   no_token_before (py ''- [x] done [ ] todo'') 11 \<and>
   classify (py ''- [x] done [ ] todo'') = Some (True, py ''[x] done todo'') \<and>
   is_item_line (py ''- [x] done [ ] todo'') 0 True (py ''[x] done todo'')"
proof -
  let ?l = "py ''- [x] done [ ] todo''"
  have h1: "?l \<in> set (splitlines (py ''- [x] done [ ] todo\<newline>''))"
    by (simp add: w_lines)
  have h2: "strip ?l \<noteq> []"
    by (simp add: eval_defs)
  have h3: "?l = lstrip (norm_line ?l)"
    by (simp add: w_content)
  have i: "indent_of (norm_line ?l) = 0"
    by (simp add: eval_defs)
  from first_token_classified [OF h1 h2 h3 w_token w_first]
  have "classify ?l = Some (True, py ''[x] done todo'') \<and>
        is_item_line ?l 0 True (py ''[x] done todo'')"
    unfolding w_text i .
  with h1 h2 h3 w_token w_first show ?thesis by blast
qed








end
